theory Spec2Isabelle
  imports Main "HOL-Library.Word" "HOL-Library.Sublist"
begin

section \<open>The GStreamer to numpy frame bridge (src/gstreamer_source.py)\<close>

text \<open>
  A shallow embedding of class \<open>GStreamerFileSource\<close>. The object's fields become a record,
  each method a function from the record to an outcome and the updated record. The calls into
  numpy, \<open>queue.Queue\<close>, \<open>threading.Thread\<close> and GStreamer are modelled by what the
  libraries document for the arguments the class passes.

  Dimensions and strides are natural numbers: the caps of line 37 fix
  \<open>video/x-raw\<close> width and height, which GStreamer negotiates as positive integers, and
  \<open>video_meta.stride[0]\<close> of a packed BGR plane is a byte count.
\<close>

subsection \<open>numpy arrays of uint8\<close>

type_synonym byte = "8 word"

text \<open>
  An array is its shape and its elements in C (row-major) order. Views and copies are the same
  value here; \<open>frame.copy()\<close> (line 138) is what makes that sound for the code, since the
  mapped buffer is handed back to GStreamer at \<open>buf.unmap\<close>.
\<close>

record ndarray =
  shape :: "nat list"
  flat :: "byte list"

datatype py_exception = ValueError | IndexError | ZeroDivisionError | RuntimeError

text \<open>\<open>np.frombuffer(b, dtype=np.uint8)\<close>: one element per byte.\<close>

definition frombuffer :: "byte list \<Rightarrow> ndarray" where
  "frombuffer bs = \<lparr>shape = [length bs], flat = bs\<rparr>"

text \<open>\<open>a.size\<close>.\<close>

definition array_size :: "ndarray \<Rightarrow> nat" where
  "array_size a = length (flat a)"

text \<open>\<open>a[:k]\<close> on a one-dimensional array, \<open>k \<ge> 0\<close>: the slice is clipped to the array.\<close>

definition slice_to :: "nat \<Rightarrow> ndarray \<Rightarrow> ndarray" where
  "slice_to k a = \<lparr>shape = [min k (length (flat a))], flat = take k (flat a)\<rparr>"

text \<open>\<open>a.reshape(shp)\<close> with non-negative dimensions: ValueError unless the sizes agree.\<close>

definition reshape :: "nat list \<Rightarrow> ndarray \<Rightarrow> py_exception + ndarray" where
  "reshape shp a =
     (if prod_list shp = length (flat a) then Inr \<lparr>shape = shp, flat = flat a\<rparr>
      else Inl ValueError)"

text \<open>
  \<open>a[:, :k]\<close>: the first \<open>k\<close> columns of every row of a two-dimensional array. On a
  one-dimensional array numpy raises IndexError; the source applies it to the result of a
  two-dimensional reshape only.
\<close>

definition slice_cols :: "nat \<Rightarrow> ndarray \<Rightarrow> py_exception + ndarray" where
  "slice_cols k a =
     (case shape a of
        [r, c] \<Rightarrow>
          Inr \<lparr>shape = [r, min k c],
               flat = concat (map (\<lambda>i. take k (take c (drop (i * c) (flat a)))) [0..<r])\<rparr>
      | _ \<Rightarrow> Inl IndexError)"

definition copy :: "ndarray \<Rightarrow> ndarray" where
  "copy a = a"

subsection \<open>The pixel unpacker (lines 110 to 138 of \<open>_on_new_sample\<close>)\<close>

text \<open>What the callback prints (lines 79, 115 and 127).\<close>

datatype log_line =
    BufferSmallerThanExpected nat nat nat
  | RowWidthExceedsStride nat nat
  | GStreamerError string string

text \<open>
  The three ways the body leaves without a frame: \<open>return Gst.FlowReturn.ERROR\<close> after a
  print, the same return without a print (a failed \<open>buf.map\<close>), or a Python exception.
\<close>

datatype failure = Rejected log_line | MapFailed | Raised py_exception

definition unpack :: "nat \<Rightarrow> nat \<Rightarrow> nat \<Rightarrow> byte list \<Rightarrow> failure + ndarray" where
  "unpack w h row_stride bs =
     (let data = frombuffer bs;
          expected_size = row_stride * h
      in if array_size data < expected_size
         then Inl (Rejected (BufferSmallerThanExpected (array_size data) row_stride h))
         else
           (case reshape [h, row_stride] (slice_to expected_size data) of
              Inl e \<Rightarrow> Inl (Raised e)
            | Inr frame_padded \<Rightarrow>
                (let valid_row_bytes = w * 3
                 in if valid_row_bytes > row_stride
                    then Inl (Rejected (RowWidthExceedsStride valid_row_bytes row_stride))
                    else
                      (case slice_cols valid_row_bytes frame_padded of
                         Inl e \<Rightarrow> Inl (Raised e)
                       | Inr frame_2d \<Rightarrow>
                           (case reshape [h, w, 3] frame_2d of
                              Inl e \<Rightarrow> Inl (Raised e)
                            | Inr frame \<Rightarrow> Inr (copy frame))))))"

subsection \<open>The sample handed to the callback (lines 85 to 106)\<close>

text \<open>
  \<open>width\<close> and \<open>height\<close> come from the caps, \<open>stride\<close> is \<open>video_meta.stride[0]\<close> when the
  buffer carries a video meta, \<open>payload\<close> is the mapped memory, and \<open>mappable\<close> says whether
  \<open>buf.map(Gst.MapFlags.READ)\<close> succeeds on this buffer.
\<close>

record raw_sample =
  width :: nat
  height :: nat
  stride :: "nat option"
  payload :: "byte list"
  mappable :: bool

text \<open>
  Lines 93 to 102: the stride of the meta, or on the fallback path the mapped size divided by
  the height (\<open>//\<close> raises ZeroDivisionError for height 0).
\<close>

definition get_row_stride :: "raw_sample \<Rightarrow> failure + nat" where
  "get_row_stride smp =
     (case stride smp of
        Some st \<Rightarrow> Inr st
      | None \<Rightarrow>
          if \<not> mappable smp then Inl MapFailed
          else if height smp = 0 then Inl (Raised ZeroDivisionError)
          else Inr (length (payload smp) div height smp))"

text \<open>Lines 85 to 138: everything the callback does before it touches the queue.\<close>

definition build_frame :: "raw_sample \<Rightarrow> failure + ndarray" where
  "build_frame smp =
     (case get_row_stride smp of
        Inl f \<Rightarrow> Inl f
      | Inr row_stride \<Rightarrow>
          if \<not> mappable smp then Inl MapFailed
          else unpack (width smp) (height smp) row_stride (payload smp))"

subsection \<open>\<open>queue.Queue\<close>\<close>

text \<open>
  The standard library's queue: \<open>maxsize \<le> 0\<close> means unbounded; \<open>put_nowait\<close> raises
  \<open>queue.Full\<close> exactly when \<open>0 < maxsize \<le> qsize\<close>, and appends at the tail otherwise.
\<close>

record 'a py_queue =
  maxsize :: int
  items :: "'a list"

definition Queue :: "int \<Rightarrow> 'a py_queue" where
  "Queue n = \<lparr>maxsize = n, items = []\<rparr>"

datatype queue_error = Full

definition put_nowait :: "'a \<Rightarrow> 'a py_queue \<Rightarrow> queue_error + 'a py_queue" where
  "put_nowait x q =
     (if 0 < maxsize q \<and> maxsize q \<le> int (length (items q)) then Inl Full
      else Inr (q\<lparr>items := items q @ [x]\<rparr>))"

text \<open>Lines 140 to 144: \<open>try: put_nowait(frame) except queue.Full: pass\<close>.\<close>

definition try_put :: "'a \<Rightarrow> 'a py_queue \<Rightarrow> 'a py_queue" where
  "try_put x q = (case put_nowait x q of Inl Full \<Rightarrow> q | Inr q' \<Rightarrow> q')"

subsection \<open>The object\<close>

datatype gst_state = NULL | PLAYING

datatype flow_return = FLOW_OK | FLOW_ERROR

datatype bus_message = EOS | ERROR string string | OTHER

text \<open>
  \<open>queue\<close> is \<open>self._queue\<close>, \<open>done_flag\<close> is \<open>self._done\<close>, \<open>pipeline_state\<close> the state last
  requested of \<open>self._pipeline\<close>, \<open>loop_running\<close> is \<open>self._loop.is_running()\<close>,
  \<open>thread_started\<close> whether \<open>self._thread.start()\<close> has been called, \<open>printed\<close> the lines
  written to standard output. \<open>done_writes\<close> is a ghost counter: the number of assignments to
  \<open>self._done\<close> executed after the constructor.
\<close>

record source =
  queue :: "ndarray py_queue"
  done_flag :: bool
  pipeline_state :: gst_state
  loop_running :: bool
  thread_started :: bool
  printed :: "log_line list"
  done_writes :: nat

text \<open>
  How a call ends: it returns a value, raises, or (for the blocking \<open>get\<close>) does not return in
  this state and waits until another thread puts an item.
\<close>

datatype 'a outcome = Returns 'a | Raises py_exception | Blocks

definition default_queue_size :: int where
  "default_queue_size = 10"

text \<open>\<open>__init__\<close> (lines 25 to 51); a freshly parsed pipeline is in state NULL.\<close>

definition init :: "string \<Rightarrow> nat \<Rightarrow> nat \<Rightarrow> int \<Rightarrow> source" where
  "init filename w h queue_size =
     \<lparr>queue = Queue queue_size, done_flag = False, pipeline_state = NULL,
      loop_running = False, thread_started = False, printed = [], done_writes = 0\<rparr>"

text \<open>The assignment \<open>self._done = True\<close> (lines 63, 74, 80).\<close>

definition set_done :: "source \<Rightarrow> source" where
  "set_done s = s\<lparr>done_flag := True, done_writes := Suc (done_writes s)\<rparr>"

text \<open>
  \<open>start\<close> (lines 53 to 56). \<open>Thread.start\<close> raises RuntimeError when the thread was started
  before; the pipeline has been set to PLAYING by then.
\<close>

definition start :: "source \<Rightarrow> unit outcome \<times> source" where
  "start s =
     (let s1 = s\<lparr>pipeline_state := PLAYING\<rparr>
      in if thread_started s1 then (Raises RuntimeError, s1)
         else (Returns (), s1\<lparr>thread_started := True, loop_running := True\<rparr>))"

text \<open>\<open>stop\<close> (lines 58 to 63).\<close>

definition stop :: "source \<Rightarrow> unit outcome \<times> source" where
  "stop s =
     (let s1 = s\<lparr>pipeline_state := NULL\<rparr>;
          s2 = (if loop_running s1 then s1\<lparr>loop_running := False\<rparr> else s1)
      in (Returns (), set_done s2))"

text \<open>The property \<open>done\<close> (lines 65 to 67).\<close>

definition done_property :: "source \<Rightarrow> bool" where
  "done_property s = done_flag s"

text \<open>\<open>_on_bus_message\<close> (lines 69 to 81).\<close>

definition on_bus_message :: "bus_message \<Rightarrow> source \<Rightarrow> unit outcome \<times> source" where
  "on_bus_message m s =
     (case m of
        EOS \<Rightarrow> stop (set_done s)
      | ERROR err debug \<Rightarrow>
          stop (set_done (s\<lparr>printed := printed s @ [GStreamerError err debug]\<rparr>))
      | OTHER \<Rightarrow> (Returns (), s))"

text \<open>\<open>_on_new_sample\<close> (lines 83 to 149).\<close>

definition on_new_sample :: "raw_sample \<Rightarrow> source \<Rightarrow> flow_return outcome \<times> source" where
  "on_new_sample smp s =
     (case build_frame smp of
        Inl (Rejected line) \<Rightarrow> (Returns FLOW_ERROR, s\<lparr>printed := printed s @ [line]\<rparr>)
      | Inl MapFailed \<Rightarrow> (Returns FLOW_ERROR, s)
      | Inl (Raised e) \<Rightarrow> (Raises e, s)
      | Inr frame \<Rightarrow> (Returns FLOW_OK, s\<lparr>queue := try_put frame (queue s)\<rparr>))"

text \<open>
  \<open>get_frame_blocking\<close> (lines 151 to 157): \<open>self._queue.get()\<close> with the default
  \<open>block=True, timeout=None\<close> takes the head of a non-empty queue and otherwise waits.
\<close>

definition get_frame_blocking :: "source \<Rightarrow> ndarray outcome \<times> source" where
  "get_frame_blocking s =
     (case items (queue s) of
        [] \<Rightarrow> (Blocks, s)
      | f # fs \<Rightarrow> (Returns f, s\<lparr>queue := (queue s)\<lparr>items := fs\<rparr>\<rparr>))"

subsection \<open>Runs\<close>

text \<open>
  A run is the sequence of calls made on the object, by the GLib thread (bus messages), the
  streaming thread (samples) and the consumer (\<open>start\<close>, \<open>stop\<close>, \<open>get_frame_blocking\<close>), each
  taken as one atomic step in the order in which they take effect.
\<close>

datatype event = Start | Stop | BusMessage bus_message | NewSample raw_sample | GetFrame

text \<open>The object after a call, whatever its outcome.\<close>

definition step :: "event \<Rightarrow> source \<Rightarrow> source" where
  "step e s =
     (case e of
        Start \<Rightarrow> snd (start s)
      | Stop \<Rightarrow> snd (stop s)
      | BusMessage m \<Rightarrow> snd (on_bus_message m s)
      | NewSample smp \<Rightarrow> snd (on_new_sample smp s)
      | GetFrame \<Rightarrow> snd (get_frame_blocking s))"

text \<open>The frame a call hands to the consumer, if any.\<close>

definition received :: "event \<Rightarrow> source \<Rightarrow> ndarray list" where
  "received e s =
     (case e of
        GetFrame \<Rightarrow> (case fst (get_frame_blocking s) of Returns f \<Rightarrow> [f] | _ \<Rightarrow> [])
      | _ \<Rightarrow> [])"

text \<open>The frame a call builds for the queue, if any.\<close>

definition produced :: "event \<Rightarrow> ndarray list" where
  "produced e =
     (case e of
        NewSample smp \<Rightarrow> (case build_frame smp of Inr f \<Rightarrow> [f] | Inl _ \<Rightarrow> [])
      | _ \<Rightarrow> [])"

text \<open>The frame a call builds and loses to \<open>queue.Full\<close>, if any.\<close>

definition dropped :: "event \<Rightarrow> source \<Rightarrow> ndarray list" where
  "dropped e s =
     (case e of
        NewSample smp \<Rightarrow>
          (case build_frame smp of
             Inr f \<Rightarrow> (case put_nowait f (queue s) of Inl Full \<Rightarrow> [f] | Inr _ \<Rightarrow> [])
           | Inl _ \<Rightarrow> [])
      | _ \<Rightarrow> [])"

fun run :: "event list \<Rightarrow> source \<Rightarrow> source" where
  "run [] s = s"
| "run (e # es) s = run es (step e s)"

fun consumed :: "event list \<Rightarrow> source \<Rightarrow> ndarray list" where
  "consumed [] s = []"
| "consumed (e # es) s = received e s @ consumed es (step e s)"

fun all_produced :: "event list \<Rightarrow> ndarray list" where
  "all_produced [] = []"
| "all_produced (e # es) = produced e @ all_produced es"

fun all_dropped :: "event list \<Rightarrow> source \<Rightarrow> ndarray list" where
  "all_dropped [] s = []"
| "all_dropped (e # es) s = dropped e s @ all_dropped es (step e s)"

text \<open>Pushing a list of items into a queue with no pop in between.\<close>

fun put_all :: "'a list \<Rightarrow> 'a py_queue \<Rightarrow> 'a py_queue" where
  "put_all [] q = q"
| "put_all (x # xs) q = put_all xs (try_put x q)"

subsection \<open>The pipeline's side of a sample\<close>

text \<open>
  What GStreamer does with the value the \<open>new-sample\<close> handler returns. \<open>GST_FLOW_OK\<close> lets
  the stream go on. \<open>GST_FLOW_ERROR\<close> is a fatal flow return: the streaming thread stops and
  the element that drives it posts an ERROR message on the bus.
\<close>

definition pipeline_reaction :: "flow_return \<Rightarrow> bus_message list" where
  "pipeline_reaction r =
     (case r of
        FLOW_OK \<Rightarrow> []
      | FLOW_ERROR \<Rightarrow> [ERROR ''Internal data stream error.'' ''streaming stopped, reason error''])"

text \<open>
  One sample from the callback to the bus: \<open>_on_new_sample\<close> runs, and the messages its return
  value causes are handed to \<open>_on_bus_message\<close> by the signal watch of lines 46 to 48, which
  dispatches from the GLib main loop, so only while that loop runs.
\<close>

definition deliver :: "raw_sample \<Rightarrow> source \<Rightarrow> source" where
  "deliver smp s =
     (case on_new_sample smp s of
        (Returns r, s') \<Rightarrow>
          if loop_running s'
          then fold (\<lambda>m t. snd (on_bus_message m t)) (pipeline_reaction r) s'
          else s'
      | (_, s') \<Rightarrow> s')"

subsection \<open>Example inputs\<close>

definition padded_sample :: raw_sample where
  "padded_sample =
     \<lparr>width = 4, height = 2, stride = Some 16, payload = map of_nat [0..<32], mappable = True\<rparr>"

definition packed_sample :: raw_sample where
  "packed_sample =
     \<lparr>width = 1, height = 2, stride = Some 3, payload = [1, 2, 3, 4, 5, 6, 7], mappable = True\<rparr>"


definition wide_sample :: raw_sample where
  "wide_sample =
     \<lparr>width = 4, height = 2, stride = Some 8, payload = map of_nat [0..<16], mappable = True\<rparr>"

definition packed_frame :: ndarray where
  "packed_frame = \<lparr>shape = [2, 1, 3], flat = [1, 2, 3, 4, 5, 6]\<rparr>"

definition fresh_source :: source where
  "fresh_source = init ''video.mp4'' 1 2 default_queue_size"

section \<open>The pixel unpacker\<close>

lemma length_concat_rows:
  "(\<And>i. i < n \<Longrightarrow> length (f i) = k) \<Longrightarrow> length (concat (map f [0..<n])) = n * k"
  by (induction n) auto

lemma nth_concat_rows:
  "(\<And>i. i < n \<Longrightarrow> length (f i) = k) \<Longrightarrow> i < n \<Longrightarrow> j < k \<Longrightarrow>
   concat (map f [0..<n]) ! (i * k + j) = f i ! j"
proof (induction n)
  case 0 then show ?case by simp
next
  case (Suc n)
  have len: "length (concat (map f [0..<n])) = n * k"
    using Suc.prems(1) by (intro length_concat_rows) simp
  show ?case
  proof (cases "i < n")
    case True
    have "i * k + j < n * k"
    proof -
      have "i * k + j < i * k + k" using Suc.prems(3) by simp
      also have "\<dots> = Suc i * k" by simp
      also have "\<dots> \<le> n * k" using True by (intro mult_le_mono1) simp
      finally show ?thesis .
    qed
    then show ?thesis using Suc True len by (simp add: nth_append)
  next
    case False
    then have "i = n" using Suc.prems(2) by simp
    then show ?thesis using len Suc.prems(3) by (simp add: nth_append)
  qed
qed

lemma row_in_range:
  assumes "i < h" "k \<le> st" "st * h \<le> length bs"
  shows "take k (take st (drop (i * st) (take (st * h) bs))) = take k (drop (i * st) bs)"
    and "length (take k (drop (i * st) bs)) = k"
proof -
  have "Suc i * st \<le> h * st" using assms(1) by (intro mult_le_mono1) simp
  then have b: "i * st + st \<le> st * h" by (simp add: mult.commute)
  then have "st \<le> st * h - i * st" by simp
  then show "take k (take st (drop (i * st) (take (st * h) bs))) = take k (drop (i * st) bs)"
    using assms(2) by (simp add: drop_take min_def)
  show "length (take k (drop (i * st) bs)) = k"
    using b assms(2,3) by simp
qed

lemma unpack_ok:
  assumes "w * 3 \<le> st" "st * h \<le> length bs"
  shows "unpack w h st bs =
         Inr \<lparr>shape = [h, w, 3],
              flat = concat (map (\<lambda>i. take (w * 3) (drop (i * st) bs)) [0..<h])\<rparr>"
proof -
  let ?rows = "concat (map (\<lambda>i. take (w * 3) (take st (drop (i * st) (take (st * h) bs)))) [0..<h])"
  have rows: "?rows = concat (map (\<lambda>i. take (w * 3) (drop (i * st) bs)) [0..<h])"
  proof -
    have "map (\<lambda>i. take (w * 3) (take st (drop (i * st) (take (st * h) bs)))) [0..<h]
          = map (\<lambda>i. take (w * 3) (drop (i * st) bs)) [0..<h]"
    proof (rule map_cong[OF refl])
      fix i assume "i \<in> set [0..<h]"
      then have "i < h" by simp
      then show "take (w * 3) (take st (drop (i * st) (take (st * h) bs)))
                 = take (w * 3) (drop (i * st) bs)"
        using assms by (rule row_in_range(1))
    qed
    then show ?thesis by (rule arg_cong)
  qed
  have len: "length (concat (map (\<lambda>i. take (w * 3) (drop (i * st) bs)) [0..<h])) = h * (w * 3)"
    using assms by (intro length_concat_rows) (rule row_in_range(2))
  have a: "reshape [h, st] (slice_to (st * h) (frombuffer bs))
           = Inr \<lparr>shape = [h, st], flat = take (st * h) bs\<rparr>"
    using assms(2) by (simp add: reshape_def slice_to_def frombuffer_def mult.commute)
  have b: "slice_cols (w * 3) \<lparr>shape = [h, st], flat = take (st * h) bs\<rparr>
           = Inr \<lparr>shape = [h, min (w * 3) st], flat = ?rows\<rparr>"
    by (simp add: slice_cols_def)
  have c: "reshape [h, w, 3] \<lparr>shape = [h, min (w * 3) st], flat = ?rows\<rparr>
           = Inr \<lparr>shape = [h, w, 3], flat = ?rows\<rparr>"
    unfolding rows using len by (simp add: reshape_def)
  show ?thesis
    unfolding unpack_def Let_def using assms a b c rows
    by (simp add: array_size_def frombuffer_def copy_def)
qed

lemma concat_chunks:
  "concat (map (\<lambda>i. take k (drop (i * k) bs)) [0..<n]) = take (n * k) bs"
proof (induction n)
  case 0 show ?case by simp
next
  case (Suc n)
  have "take (n * k) bs @ take k (drop (n * k) bs) = take (n * k + k) bs"
    by (simp add: take_add)
  then show ?case using Suc by (simp add: add.commute)
qed

lemma rows_length:
  assumes "k \<le> st" "st * h \<le> length bs"
  shows "length (concat (map (\<lambda>i. take k (drop (i * st) bs)) [0..<h])) = h * k"
  using assms by (intro length_concat_rows) (rule row_in_range(2))

lemma rows_nth:
  assumes "k \<le> st" "st * h \<le> length bs" "i < h" "j < k"
  shows "concat (map (\<lambda>i. take k (drop (i * st) bs)) [0..<h]) ! (i * k + j) = bs ! (i * st + j)"
proof -
  have "Suc i * st \<le> h * st" using assms(3) by (intro mult_le_mono1) simp
  then have b: "i * st + st \<le> length bs" using assms(2) by (simp add: mult.commute)
  have "concat (map (\<lambda>i. take k (drop (i * st) bs)) [0..<h]) ! (i * k + j)
        = take k (drop (i * st) bs) ! j"
  proof (rule nth_concat_rows)
    fix i' assume "i' < h"
    then show "length (take k (drop (i' * st) bs)) = k"
      using assms(1,2) by (rule row_in_range(2))
  qed (use assms in simp_all)
  also have "\<dots> = bs ! (i * st + j)"
    using assms(1,4) b by simp
  finally show ?thesis .
qed

lemma rows_cong:
  assumes "k \<le> st" "st * h \<le> length bs" "st * h \<le> length bs'"
    and "\<And>i j. i < h \<Longrightarrow> j < k \<Longrightarrow> bs' ! (i * st + j) = bs ! (i * st + j)"
  shows "map (\<lambda>i. take k (drop (i * st) bs')) [0..<h] = map (\<lambda>i. take k (drop (i * st) bs)) [0..<h]"
proof (rule map_cong[OF refl])
  fix i assume "i \<in> set [0..<h]"
  then have i: "i < h" by simp
  then have "Suc i * st \<le> h * st" by (intro mult_le_mono1) simp
  then have b: "i * st + st \<le> st * h" by (simp add: mult.commute)
  show "take k (drop (i * st) bs') = take k (drop (i * st) bs)"
  proof (rule nth_equalityI)
    show "length (take k (drop (i * st) bs')) = length (take k (drop (i * st) bs))"
      using b assms(1-3) by simp
    fix j assume "j < length (take k (drop (i * st) bs'))"
    then have j: "j < k" by simp
    then show "take k (drop (i * st) bs') ! j = take k (drop (i * st) bs) ! j"
      using assms(4)[OF i j] b assms(1-3) by simp
  qed
qed


lemma unpack_closed_form:
  "unpack w h st bs =
     (if length bs < st * h then Inl (Rejected (BufferSmallerThanExpected (length bs) st h))
      else if st < w * 3 then Inl (Rejected (RowWidthExceedsStride (w * 3) st))
      else Inr \<lparr>shape = [h, w, 3],
                flat = concat (map (\<lambda>i. take (w * 3) (drop (i * st) bs)) [0..<h])\<rparr>)"
proof (cases "length bs < st * h")
  case True
  then show ?thesis by (simp add: unpack_def array_size_def frombuffer_def Let_def)
next
  case False
  then have a: "reshape [h, st] (slice_to (st * h) (frombuffer bs))
           = Inr \<lparr>shape = [h, st], flat = take (st * h) bs\<rparr>"
    by (simp add: reshape_def slice_to_def frombuffer_def mult.commute)
  show ?thesis
  proof (cases "st < w * 3")
    case True
    then show ?thesis using False a
      by (simp add: unpack_def array_size_def frombuffer_def Let_def)
  next
    case st: False
    then show ?thesis using False unpack_ok[of w st h bs] by simp
  qed
qed

text \<open>
  Claim C1. A sample whose meta stride exceeds \<open>width * 3\<close> and whose buffer holds at least
  \<open>stride * height\<close> bytes yields a frame of shape \<open>(height, width, 3)\<close> whose row \<open>i\<close> is
  bytes \<open>i * stride\<close> to \<open>i * stride + width * 3 - 1\<close> of the buffer, in order. Any other
  buffer that agrees on those positions gives the same frame, whatever its padding bytes and
  whatever lies at index \<open>stride * height\<close> and beyond: neither is read.
\<close>

theorem unpack_drops_row_padding:
  assumes "stride smp = Some st" and "width smp * 3 < st"
    and "st * height smp \<le> length (payload smp)" and "mappable smp"
  shows "\<exists>fr. build_frame smp = Inr fr
           \<and> shape fr = [height smp, width smp, 3]
           \<and> length (flat fr) = height smp * (width smp * 3)
           \<and> (\<forall>i<height smp. \<forall>j<width smp * 3.
                 flat fr ! (i * (width smp * 3) + j) = payload smp ! (i * st + j))
           \<and> (\<forall>bs'. st * height smp \<le> length bs'
                    \<and> (\<forall>i<height smp. \<forall>j<width smp * 3.
                           bs' ! (i * st + j) = payload smp ! (i * st + j))
                 \<longrightarrow> build_frame (smp\<lparr>payload := bs'\<rparr>) = Inr fr)"
proof -
  let ?w = "width smp" and ?h = "height smp" and ?bs = "payload smp"
  let ?fr = "\<lparr>shape = [?h, ?w, 3],
              flat = concat (map (\<lambda>i. take (?w * 3) (drop (i * st) ?bs)) [0..<?h])\<rparr>"
  have le: "?w * 3 \<le> st" using assms(2) by simp
  have bf: "build_frame smp = Inr ?fr"
    using assms by (simp add: build_frame_def get_row_stride_def unpack_closed_form)
  have len: "length (flat ?fr) = ?h * (?w * 3)"
    using le assms(3) by (simp add: rows_length)
  have nth: "\<forall>i<?h. \<forall>j<?w * 3. flat ?fr ! (i * (?w * 3) + j) = ?bs ! (i * st + j)"
    using le assms(3) by (simp add: rows_nth)
  have other: "build_frame (smp\<lparr>payload := bs'\<rparr>) = Inr ?fr"
    if l: "st * ?h \<le> length bs'"
      and eq: "\<forall>i<?h. \<forall>j<?w * 3. bs' ! (i * st + j) = ?bs ! (i * st + j)" for bs'
  proof -
    have "map (\<lambda>i. take (?w * 3) (drop (i * st) bs')) [0..<?h]
          = map (\<lambda>i. take (?w * 3) (drop (i * st) ?bs)) [0..<?h]"
      using le assms(3) l eq by (intro rows_cong) simp_all
    then have c: "concat (map (\<lambda>i. take (?w * 3) (drop (i * st) bs')) [0..<?h])
          = concat (map (\<lambda>i. take (?w * 3) (drop (i * st) ?bs)) [0..<?h])"
      by (rule arg_cong)
    have "unpack ?w ?h st bs' = Inr ?fr"
      unfolding unpack_closed_form c using l assms(2) by simp
    then show ?thesis
      using assms(1,4) by (simp add: build_frame_def get_row_stride_def)
  qed
  show ?thesis
    using bf len nth other by (intro exI[of _ ?fr]) simp
qed

theorem unpack_drops_row_padding_witness:
  "\<exists>fr. build_frame padded_sample = Inr fr
     \<and> shape fr = [2, 4, 3]
     \<and> length (flat fr) = 24
     \<and> flat fr ! 12 = payload padded_sample ! 16
     \<and> build_frame (padded_sample\<lparr>payload := take 32 (payload padded_sample) @ [255]\<rparr>) = Inr fr"
proof -
  have s: "stride padded_sample = Some 16" and w: "width padded_sample * 3 < 16"
    and l: "16 * height padded_sample \<le> length (payload padded_sample)"
    and m: "mappable padded_sample"
    by (simp_all add: padded_sample_def)
  from unpack_drops_row_padding[OF s w l m] obtain fr where
    fr: "build_frame padded_sample = Inr fr"
      "shape fr = [height padded_sample, width padded_sample, 3]"
      "length (flat fr) = height padded_sample * (width padded_sample * 3)"
      "\<forall>i<height padded_sample. \<forall>j<width padded_sample * 3.
          flat fr ! (i * (width padded_sample * 3) + j) = payload padded_sample ! (i * 16 + j)"
      "\<forall>bs'. 16 * height padded_sample \<le> length bs'
                    \<and> (\<forall>i<height padded_sample. \<forall>j<width padded_sample * 3.
                           bs' ! (i * 16 + j) = payload padded_sample ! (i * 16 + j))
                 \<longrightarrow> build_frame (padded_sample\<lparr>payload := bs'\<rparr>) = Inr fr"
    by blast
  have h: "height padded_sample = 2" "width padded_sample = 4" "length (payload padded_sample) = 32"
    by (simp_all add: padded_sample_def)
  have a: "flat fr ! 12 = payload padded_sample ! 16"
    using fr(4)[rule_format, of 1 0] by (simp add: h)
  have b: "build_frame (padded_sample\<lparr>payload := take 32 (payload padded_sample) @ [255]\<rparr>) = Inr fr"
  proof (rule fr(5)[rule_format], intro conjI allI impI)
    show "16 * height padded_sample \<le> length (take 32 (payload padded_sample) @ [255])"
      by (simp add: h)
    fix i j assume "i < height padded_sample" "j < width padded_sample * 3"
    then have "i * 16 + j < 32" by (simp add: h)
    then show "(take 32 (payload padded_sample) @ [255]) ! (i * 16 + j)
               = payload padded_sample ! (i * 16 + j)"
      by (simp add: nth_append h)
  qed
  show ?thesis using fr(1-3) a b by (simp add: h)
qed

text \<open>
  Claim C2. With \<open>stride = width * 3\<close> and at least \<open>stride * height\<close> bytes, the frame's
  bytes are the first \<open>stride * height\<close> bytes of the buffer.
\<close>

theorem unpack_no_padding_identity:
  assumes "stride smp = Some (width smp * 3)" and "mappable smp"
    and "width smp * 3 * height smp \<le> length (payload smp)"
  shows "build_frame smp =
           Inr \<lparr>shape = [height smp, width smp, 3],
                flat = take (width smp * 3 * height smp) (payload smp)\<rparr>"
  using assms
  by (simp add: build_frame_def get_row_stride_def unpack_closed_form concat_chunks mult.commute)

theorem unpack_no_padding_identity_witness:
  "build_frame packed_sample = Inr \<lparr>shape = [2, 1, 3], flat = [1, 2, 3, 4, 5, 6]\<rparr>"
  using unpack_no_padding_identity[of packed_sample]
  by (simp add: packed_sample_def)



section \<open>The bounded queue\<close>

lemma try_put_full:
  "0 < maxsize q \<Longrightarrow> maxsize q \<le> int (length (items q)) \<Longrightarrow> try_put x q = q"
  by (simp add: try_put_def put_nowait_def)

lemma try_put_room:
  "\<not> (0 < maxsize q \<and> maxsize q \<le> int (length (items q))) \<Longrightarrow>
   try_put x q = q\<lparr>items := items q @ [x]\<rparr>"
  by (simp add: try_put_def put_nowait_def)

lemma put_all_bounded:
  "0 < maxsize q \<Longrightarrow> length (items q) \<le> nat (maxsize q) \<Longrightarrow>
   items (put_all xs q) = take (nat (maxsize q)) (items q @ xs) \<and> maxsize (put_all xs q) = maxsize q"
proof (induction xs arbitrary: q)
  case Nil
  then show ?case by simp
next
  case (Cons x xs)
  show ?case
  proof (cases "maxsize q \<le> int (length (items q))")
    case True
    then have tp: "try_put x q = q" using Cons.prems(1) by (rule try_put_full[rotated])
    have "length (items q) = nat (maxsize q)" using True Cons.prems by simp
    then have "take (nat (maxsize q)) (items q @ x # xs) = take (nat (maxsize q)) (items q @ xs)"
      by simp
    then show ?thesis using Cons.IH[OF Cons.prems] tp by simp
  next
    case False
    then have tp: "try_put x q = q\<lparr>items := items q @ [x]\<rparr>" by (simp add: try_put_room)
    have "0 < maxsize (try_put x q)" "length (items (try_put x q)) \<le> nat (maxsize (try_put x q))"
      using False Cons.prems by (simp_all add: tp)
    from Cons.IH[OF this] show ?thesis by (simp add: tp)
  qed
qed

text \<open>
  A \<open>maxsize \<le> 0\<close> is the library's unbounded queue: it has no capacity to be at, and keeps
  everything.
\<close>

lemma unbounded_queue_never_drops:
  "maxsize q \<le> 0 \<Longrightarrow> put_all xs q = q\<lparr>items := items q @ xs\<rparr>"
proof (induction xs arbitrary: q)
  case Nil
  then show ?case by simp
next
  case (Cons x xs)
  then have tp: "try_put x q = q\<lparr>items := items q @ [x]\<rparr>" by (simp add: try_put_room)
  show ?case using Cons.IH[of "try_put x q"] Cons.prems by (simp add: tp)
qed

text \<open>
  Claim C4. For a queue of fixed capacity, \<open>maxsize > 0\<close>: \<open>put_nowait\<close> on a queue at capacity
  raises \<open>queue.Full\<close>, which the callback swallows, leaving the queue as it was; below capacity
  the frame is appended. Pushing any list of frames into the empty queue with no pop in between
  leaves its first \<open>capacity\<close> elements. The constructor's default capacity is 10.
\<close>

theorem bounded_queue_keeps_oldest:
  assumes "0 < capacity"
  shows "items (put_all xs (Queue capacity)) = take (nat capacity) xs
         \<and> (\<forall>q x. maxsize q = capacity \<and> capacity \<le> int (length (items q))
               \<longrightarrow> put_nowait x q = Inl Full \<and> try_put x q = q)
         \<and> (\<forall>q x. maxsize q = capacity \<and> int (length (items q)) < capacity
               \<longrightarrow> items (try_put x q) = items q @ [x])
         \<and> maxsize (queue (init filename w h default_queue_size)) = 10"
proof -
  have "items (put_all xs (Queue capacity)) = take (nat capacity) xs"
    using put_all_bounded[of "Queue capacity" xs] assms by (simp add: Queue_def)
  then show ?thesis
    using assms by (simp add: try_put_def put_nowait_def init_def Queue_def default_queue_size_def)
qed

theorem bounded_queue_keeps_oldest_witness:
  "items (put_all [1, 2, 3, 4 :: nat] (Queue 2)) = [1, 2]"
proof -
  have pos: "(0::int) < 2" by simp
  have "items (put_all [1, 2, 3, 4 :: nat] (Queue 2)) = take (nat 2) [1, 2, 3, 4]"
    using bounded_queue_keeps_oldest[OF pos, of "[1, 2, 3, 4 :: nat]" "''video.mp4''" 4 2]
    by (rule conjunct1)
  then show ?thesis by simp
qed

section \<open>Lifecycle and runs\<close>

lemma stop_simps:
  "fst (stop s) = Returns ()" "done_flag (snd (stop s))" "pipeline_state (snd (stop s)) = NULL"
  "queue (snd (stop s)) = queue s" "done_writes (snd (stop s)) = Suc (done_writes s)"
  by (simp_all add: stop_def set_done_def Let_def)

lemma start_simps:
  "done_flag (snd (start s)) = done_flag s" "queue (snd (start s)) = queue s"
  "done_writes (snd (start s)) = done_writes s" "pipeline_state (snd (start s)) = PLAYING"
  by (simp_all add: start_def Let_def)

lemma on_bus_message_queue: "queue (snd (on_bus_message m s)) = queue s"
  by (cases m) (simp_all add: on_bus_message_def stop_simps set_done_def)

lemma on_bus_message_done: "done_flag s \<Longrightarrow> done_flag (snd (on_bus_message m s))"
  by (cases m) (simp_all add: on_bus_message_def stop_simps)

lemma on_bus_message_pipeline:
  "pipeline_state s = NULL \<Longrightarrow> pipeline_state (snd (on_bus_message m s)) = NULL"
  by (cases m) (simp_all add: on_bus_message_def stop_simps)

lemma on_bus_message_writes:
  "done_writes (snd (on_bus_message EOS s)) = Suc (Suc (done_writes s))"
  "done_writes (snd (on_bus_message (ERROR err debug) s)) = Suc (Suc (done_writes s))"
  "done_writes (snd (on_bus_message OTHER s)) = done_writes s"
  by (simp_all add: on_bus_message_def stop_simps set_done_def)

lemma on_bus_message_stops:
  "m \<noteq> OTHER \<Longrightarrow> done_flag (snd (on_bus_message m s)) \<and> pipeline_state (snd (on_bus_message m s)) = NULL
     \<and> fst (on_bus_message m s) = Returns ()"
  by (cases m) (simp_all add: on_bus_message_def stop_simps)

lemma on_new_sample_fields:
  "done_flag (snd (on_new_sample smp s)) = done_flag s"
  "pipeline_state (snd (on_new_sample smp s)) = pipeline_state s"
  "done_writes (snd (on_new_sample smp s)) = done_writes s"
  by (simp_all add: on_new_sample_def split: sum.splits failure.splits)

lemma get_frame_blocking_fields:
  "done_flag (snd (get_frame_blocking s)) = done_flag s"
  "pipeline_state (snd (get_frame_blocking s)) = pipeline_state s"
  "done_writes (snd (get_frame_blocking s)) = done_writes s"
  by (simp_all add: get_frame_blocking_def split: list.splits)

lemma step_done: "done_flag s \<Longrightarrow> done_flag (step e s)"
  by (cases e)
     (simp_all add: step_def stop_simps start_simps on_bus_message_done on_new_sample_fields
        get_frame_blocking_fields)

lemma run_done: "done_flag s \<Longrightarrow> done_flag (run es s)"
  by (induction es arbitrary: s) (simp_all add: step_done)

lemma step_pipeline: "pipeline_state s = NULL \<Longrightarrow> e \<noteq> Start \<Longrightarrow> pipeline_state (step e s) = NULL"
  by (cases e)
     (simp_all add: step_def stop_simps on_bus_message_pipeline on_new_sample_fields
        get_frame_blocking_fields)

lemma run_pipeline:
  "pipeline_state s = NULL \<Longrightarrow> Start \<notin> set es \<Longrightarrow> pipeline_state (run es s) = NULL"
proof (induction es arbitrary: s)
  case Nil then show ?case by simp
next
  case (Cons e es)
  then have "pipeline_state (step e s) = NULL" by (intro step_pipeline) auto
  then show ?case using Cons by simp
qed

lemma step_written: "done_flag s = (0 < done_writes s) \<Longrightarrow> done_flag (step e s) = (0 < done_writes (step e s))"
proof (cases e)
  case (BusMessage m)
  assume "done_flag s = (0 < done_writes s)"
  then show ?thesis unfolding BusMessage
    by (cases m) (simp_all add: step_def on_bus_message_writes on_bus_message_stops, simp add: on_bus_message_def)
qed (simp_all add: step_def stop_simps start_simps on_new_sample_fields get_frame_blocking_fields)

lemma run_written: "done_flag s = (0 < done_writes s) \<Longrightarrow> done_flag (run es s) = (0 < done_writes (run es s))"
  by (induction es arbitrary: s) (simp_all add: step_written)

lemma step_accounting:
  "received e s @ items (queue (step e s)) @ dropped e s = items (queue s) @ produced e"
proof (cases e)
  case (NewSample smp)
  show ?thesis
  proof (cases "build_frame smp")
    case (Inl f)
    then show ?thesis unfolding NewSample
      by (cases f) (simp_all add: step_def received_def dropped_def produced_def on_new_sample_def)
  next
    case (Inr fr)
    then show ?thesis unfolding NewSample
      by (simp add: step_def received_def dropped_def produced_def on_new_sample_def
            try_put_def put_nowait_def)
  qed
next
  case GetFrame
  then show ?thesis
    by (simp add: step_def received_def dropped_def produced_def get_frame_blocking_def
          split: list.splits)
qed (simp_all add: step_def received_def dropped_def produced_def stop_simps start_simps
       on_bus_message_queue)

lemma run_no_drops:
  "all_dropped es s = [] \<Longrightarrow>
   consumed es s @ items (queue (run es s)) = items (queue s) @ all_produced es"
proof (induction es arbitrary: s)
  case Nil then show ?case by simp
next
  case (Cons e es)
  then have d: "dropped e s = []" and ds: "all_dropped es (step e s) = []" by simp_all
  have "received e s @ items (queue (step e s)) = items (queue s) @ produced e"
    using step_accounting[of e s] d by simp
  then have "(received e s @ items (queue (step e s))) @ all_produced es
             = (items (queue s) @ produced e) @ all_produced es" by simp
  then show ?case using Cons.IH[OF ds] by simp
qed

lemma run_subseq:
  "subseq (consumed es s @ items (queue (run es s))) (items (queue s) @ all_produced es)"
proof (induction es arbitrary: s)
  case Nil show ?case by simp
next
  case (Cons e es)
  let ?s' = "step e s"
  have a: "subseq (received e s @ (consumed es ?s' @ items (queue (run es ?s'))))
                  (received e s @ (items (queue ?s') @ all_produced es))"
    using Cons.IH[of ?s'] by (simp only: subseq_append')
  have "subseq (received e s @ items (queue ?s')) ((received e s @ items (queue ?s')) @ dropped e s)"
    by (rule subseq_rev_drop_many) simp
  then have "subseq (received e s @ items (queue ?s')) (items (queue s) @ produced e)"
    using step_accounting[of e s] by simp
  then have b: "subseq ((received e s @ items (queue ?s')) @ all_produced es)
                       ((items (queue s) @ produced e) @ all_produced es)"
    by (simp only: subseq_append)
  have "subseq (received e s @ (consumed es ?s' @ items (queue (run es ?s'))))
               ((items (queue s) @ produced e) @ all_produced es)"
    using a b unfolding append_assoc by (rule subseq_order.trans)
  then show ?case by simp
qed

lemma run_count:
  "length (consumed es s) + length (items (queue (run es s))) + length (all_dropped es s)
   = length (items (queue s)) + length (all_produced es)"
proof (induction es arbitrary: s)
  case Nil show ?case by simp
next
  case (Cons e es)
  have "length (received e s @ items (queue (step e s)) @ dropped e s)
        = length (items (queue s) @ produced e)"
    by (simp only: step_accounting)
  then show ?case using Cons.IH[of "step e s"] by simp
qed

lemma step_no_sample_suffix:
  "(\<forall>smp. e \<noteq> NewSample smp) \<Longrightarrow> suffix (items (queue (step e s))) (items (queue s))"
  by (cases e)
     (auto simp add: step_def stop_simps start_simps on_bus_message_queue get_frame_blocking_def
        suffix_def split: list.splits)

lemma run_no_sample_suffix:
  "(\<forall>smp. NewSample smp \<notin> set es) \<Longrightarrow> suffix (items (queue (run es s))) (items (queue s))"
proof (induction es arbitrary: s)
  case Nil show ?case by simp
next
  case (Cons e es)
  then have "suffix (items (queue (step e s))) (items (queue s))"
    by (intro step_no_sample_suffix) auto
  moreover have "suffix (items (queue (run es (step e s)))) (items (queue (step e s)))"
    using Cons by auto
  ultimately show ?case by (auto intro: suffix_order.trans)
qed

lemma build_frame_packed_sample: "build_frame packed_sample = Inr packed_frame"
proof -
  have "concat (map (\<lambda>i. take 3 (drop (i * 3) [1, 2, 3, 4, 5, 6, 7 :: byte])) [0..<2])
        = take (2 * 3) [1, 2, 3, 4, 5, 6, 7]"
    by (rule concat_chunks)
  then show ?thesis
    by (simp add: build_frame_def get_row_stride_def packed_sample_def unpack_closed_form
          packed_frame_def)
qed

lemma fresh_source_fields:
  "items (queue fresh_source) = []" "maxsize (queue fresh_source) = 10"
  "\<not> done_flag fresh_source" "done_writes fresh_source = 0" "pipeline_state fresh_source = NULL"
  by (simp_all add: fresh_source_def init_def Queue_def default_queue_size_def)

lemma step_sample_fresh:
  "items (queue s) = [] \<Longrightarrow> maxsize (queue s) = 10 \<Longrightarrow>
   items (queue (step (NewSample packed_sample) s)) = [packed_frame]
   \<and> dropped (NewSample packed_sample) s = []"
  by (simp add: step_def on_new_sample_def build_frame_packed_sample try_put_def put_nowait_def
        dropped_def)

text \<open>
  Claim C5. Along any run, the frames returned by \<open>get_frame_blocking\<close>, followed by those
  still queued, are a subsequence of the frames initially queued followed by the frames built by
  the sample callback, in that order; counted with the dropped frames they are as many, so no
  frame appears twice. From an empty queue the returned frames are a subsequence of the built
  ones, and a prefix of them when no frame was dropped.
\<close>

theorem consumer_sees_ordered_subsequence:
  "subseq (consumed es s @ items (queue (run es s))) (items (queue s) @ all_produced es)
   \<and> length (consumed es s) + length (items (queue (run es s))) + length (all_dropped es s)
       = length (items (queue s)) + length (all_produced es)
   \<and> (all_dropped es s = [] \<longrightarrow>
        consumed es s @ items (queue (run es s)) = items (queue s) @ all_produced es)
   \<and> (items (queue s) = [] \<longrightarrow> subseq (consumed es s) (all_produced es))
   \<and> (items (queue s) = [] \<and> all_dropped es s = [] \<longrightarrow>
        prefix (consumed es s) (all_produced es))"
proof -
  have sub: "subseq (consumed es s @ items (queue (run es s))) (items (queue s) @ all_produced es)"
    by (rule run_subseq)
  have "subseq (consumed es s) (consumed es s @ items (queue (run es s)))"
    by (rule subseq_rev_drop_many) simp
  then have sub0: "subseq (consumed es s) (items (queue s) @ all_produced es)"
    using sub by (rule subseq_order.trans)
  have pre: "prefix (consumed es s) (all_produced es)"
    if "items (queue s) = []" "all_dropped es s = []"
  proof -
    have "all_produced es = consumed es s @ items (queue (run es s))"
      using run_no_drops[OF that(2)] that(1) by simp
    then show ?thesis by (rule prefixI)
  qed
  have sub1: "subseq (consumed es s) (all_produced es)" if "items (queue s) = []"
    using sub0 that by simp
  show ?thesis
    using sub sub1 pre run_count[of es s] run_no_drops[of es s] by (intro conjI impI) simp_all
qed

theorem consumer_sees_ordered_subsequence_witness:
  "items (queue fresh_source) = []
   \<and> all_dropped [NewSample packed_sample, GetFrame] fresh_source = []
   \<and> consumed [NewSample packed_sample, GetFrame] fresh_source = [packed_frame]
   \<and> prefix (consumed [NewSample packed_sample, GetFrame] fresh_source)
        (all_produced [NewSample packed_sample, GetFrame])"
proof -
  let ?es = "[NewSample packed_sample, GetFrame]"
  have a: "items (queue fresh_source) = []" by (rule fresh_source_fields)
  have s1: "items (queue (step (NewSample packed_sample) fresh_source)) = [packed_frame]"
    and d1: "dropped (NewSample packed_sample) fresh_source = []"
    using step_sample_fresh[OF fresh_source_fields(1,2)] by simp_all
  have b: "all_dropped ?es fresh_source = []"
    using d1 by (simp add: dropped_def)
  have c: "consumed ?es fresh_source = [packed_frame]"
    using s1 by (simp add: received_def get_frame_blocking_def)
  have "prefix (consumed ?es fresh_source) (all_produced ?es)"
    using consumer_sees_ordered_subsequence[of ?es fresh_source] a b by blast
  then show ?thesis using a b c by simp
qed

text \<open>
  Claim C6. After \<open>start\<close> and \<open>stop\<close> with nothing queued, \<open>get_frame_blocking\<close> does not
  return: \<open>stop\<close> leaves the queue as it is and \<open>Queue.get()\<close> keeps waiting, where the
  method's docstring promises \<open>queue.Empty\<close>.
\<close>

theorem get_after_stop_blocks:
  "fst (get_frame_blocking (run [Start, Stop] fresh_source)) = Blocks
   \<and> done_flag (run [Start, Stop] fresh_source)
   \<and> run [Start, Stop, GetFrame] fresh_source = run [Start, Stop] fresh_source"
  by (simp add: step_def get_frame_blocking_def stop_simps start_simps fresh_source_fields)

text \<open>
  C7 as stated fails: after an error notification has set the done flag and put the pipeline in
  NULL, a sample callback still queues its frame.
\<close>

theorem sample_after_error_is_queued:
  "done_flag (run [Start, BusMessage (ERROR ''decode'' ''detail'')] fresh_source)
   \<and> pipeline_state (run [Start, BusMessage (ERROR ''decode'' ''detail'')] fresh_source) = NULL
   \<and> items (queue (run [Start, BusMessage (ERROR ''decode'' ''detail'')] fresh_source)) = []
   \<and> items (queue (run [Start, BusMessage (ERROR ''decode'' ''detail''), NewSample packed_sample]
                     fresh_source)) = [packed_frame]"
proof -
  let ?s = "run [Start, BusMessage (ERROR ''decode'' ''detail'')] fresh_source"
  have q: "queue ?s = queue fresh_source"
    by (simp add: step_def on_bus_message_queue start_simps)
  have d: "done_flag ?s \<and> pipeline_state ?s = NULL"
    using on_bus_message_stops[of "ERROR ''decode'' ''detail''"] by (simp add: step_def)
  have "items (queue (step (NewSample packed_sample) ?s)) = [packed_frame]"
    using step_sample_fresh[of ?s] q by (simp only: fresh_source_fields)
  then show ?thesis using q d by (simp add: fresh_source_fields)
qed

text \<open>
  Claim C7, amended. Once the done flag is set it stays set along every run; the pipeline stays
  in NULL along every run without \<open>start\<close>; a run without sample callbacks adds no frame to the
  queue (what is queued afterwards is a suffix of what was queued). The sample callback does not
  look at the flag: a sample that unpacks is queued whenever \<open>put_nowait\<close> accepts it.
\<close>

theorem done_is_sticky_but_samples_are_not_gated:
  assumes "done_flag s"
  shows "done_flag (run es s)
         \<and> (pipeline_state s = NULL \<and> Start \<notin> set es \<longrightarrow> pipeline_state (run es s) = NULL)
         \<and> ((\<forall>smp. NewSample smp \<notin> set es) \<longrightarrow>
              suffix (items (queue (run es s))) (items (queue s)))
         \<and> (\<forall>smp fr q'. build_frame smp = Inr fr \<and> put_nowait fr (queue s) = Inr q' \<longrightarrow>
              queue (step (NewSample smp) s) = q')"
  using assms run_done[of s es] run_pipeline[of s es] run_no_sample_suffix[of es s]
  by (simp add: step_def on_new_sample_def try_put_def)

theorem done_is_sticky_but_samples_are_not_gated_witness:
  "done_flag (run [Start, BusMessage EOS] fresh_source)
   \<and> done_flag (run [Stop, GetFrame] (run [Start, BusMessage EOS] fresh_source))
   \<and> pipeline_state (run [Stop, GetFrame] (run [Start, BusMessage EOS] fresh_source)) = NULL
   \<and> items (queue (run [Stop, GetFrame] (run [Start, BusMessage EOS] fresh_source))) = []"
proof -
  let ?s = "run [Start, BusMessage EOS] fresh_source"
  have d: "done_flag ?s" and p: "pipeline_state ?s = NULL"
    using on_bus_message_stops[of EOS] by (simp_all add: step_def)
  have q: "items (queue ?s) = []"
    by (simp add: step_def on_bus_message_queue start_simps fresh_source_fields)
  have n: "Start \<notin> set [Stop, GetFrame]" "\<forall>smp. NewSample smp \<notin> set [Stop, GetFrame]"
    by simp_all
  from done_is_sticky_but_samples_are_not_gated[OF d, of "[Stop, GetFrame]"]
  have "done_flag (run [Stop, GetFrame] ?s)"
    and "pipeline_state (run [Stop, GetFrame] ?s) = NULL"
    and "suffix (items (queue (run [Stop, GetFrame] ?s))) (items (queue ?s))"
    using p n by blast+
  then show ?thesis using d q by simp
qed

text \<open>
  C8 as stated fails in its count of writes: handling end-of-stream assigns the flag twice (line
  74, then line 63 through \<open>stop\<close>), and a later \<open>stop\<close> assigns it again.
\<close>

theorem eos_writes_done_twice:
  "done_writes (run [Start, BusMessage EOS] fresh_source) = 2
   \<and> done_writes (run [Start, BusMessage EOS, Stop] fresh_source) = 3"
  by (simp add: step_def on_bus_message_writes stop_simps start_simps fresh_source_fields)

text \<open>
  Claim C8, amended. The done flag is false after construction, no call resets it once it is
  true, and every assignment stores true, so along a run from the constructor it is true exactly
  when it has been assigned at least once. \<open>stop\<close> assigns it once per call; the end-of-stream
  and error handlers assign it twice.
\<close>

theorem done_flag_monotonic:
  "\<not> done_flag (init filename w h queue_size)
   \<and> (done_flag s \<longrightarrow> done_flag (step e s))
   \<and> (done_flag s \<longrightarrow> done_flag (run es s))
   \<and> done_flag (run es (init filename w h queue_size))
       = (0 < done_writes (run es (init filename w h queue_size)))
   \<and> done_flag (step Stop s) \<and> done_writes (step Stop s) = Suc (done_writes s)
   \<and> (m \<noteq> OTHER \<longrightarrow> done_flag (step (BusMessage m) s)
         \<and> done_writes (step (BusMessage m) s) = Suc (Suc (done_writes s)))"
proof -
  have i: "done_flag (init filename w h queue_size) = (0 < done_writes (init filename w h queue_size))"
    by (simp add: init_def)
  have m: "done_writes (step (BusMessage m) s) = Suc (Suc (done_writes s))" if "m \<noteq> OTHER"
    using that by (cases m) (simp_all add: step_def on_bus_message_writes)
  show ?thesis
    using run_written[OF i, of es] step_done[of s e] run_done[of s es] m
      on_bus_message_stops[of m s]
    by (simp add: init_def step_def stop_simps)
qed

theorem done_flag_monotonic_witness:
  "done_flag (run [Start, Stop] fresh_source)
   \<and> done_flag (step (BusMessage EOS) (run [Start, Stop] fresh_source))
   \<and> done_flag (run [Start, GetFrame] (run [Start, Stop] fresh_source))
   \<and> done_writes (step (BusMessage EOS) (run [Start, Stop] fresh_source)) = 3"
proof -
  let ?s = "run [Start, Stop] fresh_source"
  have d: "done_flag ?s" by (simp add: step_def stop_simps)
  have w: "done_writes ?s = 1"
    by (simp add: step_def stop_simps start_simps fresh_source_fields)
  have n: "EOS \<noteq> OTHER" by simp
  from done_flag_monotonic[where s = ?s and e = "BusMessage EOS" and es = "[Start, GetFrame]"
      and m = EOS and filename = "''video.mp4''" and w = 1 and h = 2 and queue_size = 10]
  have "done_flag (step (BusMessage EOS) ?s)" "done_flag (run [Start, GetFrame] ?s)"
    "done_writes (step (BusMessage EOS) ?s) = Suc (Suc (done_writes ?s))"
    using d n by blast+
  then show ?thesis using d w by simp
qed

text \<open>
  Claim C9. Handling end-of-stream returns normally and leaves \<open>done\<close> true and the pipeline
  in NULL; after any number of further \<open>stop\<close> calls, one more \<open>stop\<close> returns normally, \<open>done\<close>
  is true and the pipeline is in NULL, never PLAYING.
\<close>

theorem stop_after_eos_is_safe:
  "fst (on_bus_message EOS s) = Returns ()
   \<and> done_property (step (BusMessage EOS) s)
   \<and> pipeline_state (step (BusMessage EOS) s) = NULL
   \<and> fst (stop (run (replicate n Stop) (step (BusMessage EOS) s))) = Returns ()
   \<and> done_property (snd (stop (run (replicate n Stop) (step (BusMessage EOS) s))))
   \<and> pipeline_state (snd (stop (run (replicate n Stop) (step (BusMessage EOS) s)))) = NULL
   \<and> pipeline_state (run (replicate n Stop) (step (BusMessage EOS) s)) \<noteq> PLAYING"
proof -
  let ?s = "step (BusMessage EOS) s"
  have a: "fst (on_bus_message EOS s) = Returns ()" "done_flag ?s" "pipeline_state ?s = NULL"
    using on_bus_message_stops[of EOS s] by (simp_all add: step_def)
  have "Start \<notin> set (replicate n Stop)" by simp
  then have "pipeline_state (run (replicate n Stop) ?s) = NULL"
    using a(3) by (intro run_pipeline)
  then show ?thesis using a by (simp add: stop_simps done_property_def)
qed

section \<open>Rejected samples\<close>

lemma on_new_sample_loop: "loop_running (snd (on_new_sample smp s)) = loop_running s"
  by (simp add: on_new_sample_def split: sum.splits failure.splits)

lemma deliver_flow_error:
  assumes "fst (on_new_sample smp s) = Returns FLOW_ERROR" and "loop_running s"
  shows "done_flag (deliver smp s) \<and> pipeline_state (deliver smp s) = NULL
         \<and> queue (deliver smp s) = queue (snd (on_new_sample smp s))"
proof -
  obtain s' where r: "on_new_sample smp s = (Returns FLOW_ERROR, s')"
    using assms(1) by (cases "on_new_sample smp s") simp
  have "loop_running s'"
    using on_new_sample_loop[of smp s] assms(2) r by simp
  then have d: "deliver smp s
      = snd (on_bus_message (ERROR ''Internal data stream error.'' ''streaming stopped, reason error'') s')"
    by (simp add: deliver_def r pipeline_reaction_def)
  show ?thesis
    unfolding d using on_bus_message_stops[of "ERROR ''Internal data stream error.'' ''streaming stopped, reason error''" s']
    by (simp add: on_bus_message_queue r)
qed

text \<open>
  C3 as stated fails in its last part. A sample whose rows are wider than its stride, handed to
  a started source, is answered with \<open>Gst.FlowReturn.ERROR\<close>; the pipeline reports that on the
  bus, and the error handler sets the done flag and stops the pipeline, which the consumer sees.
\<close>

theorem bad_sample_ends_run:
  "\<not> done_property (snd (start fresh_source))
   \<and> fst (on_new_sample wide_sample (snd (start fresh_source))) = Returns FLOW_ERROR
   \<and> done_property (deliver wide_sample (snd (start fresh_source)))
   \<and> pipeline_state (deliver wide_sample (snd (start fresh_source))) = NULL"
proof -
  let ?s = "snd (start fresh_source)"
  have bf: "build_frame wide_sample = Inl (Rejected (RowWidthExceedsStride 12 8))"
    by (simp add: build_frame_def get_row_stride_def wide_sample_def unpack_closed_form)
  have r: "fst (on_new_sample wide_sample ?s) = Returns FLOW_ERROR"
    by (simp add: on_new_sample_def bf)
  have l: "loop_running ?s"
    by (simp add: start_def fresh_source_def init_def Let_def)
  have n: "\<not> done_property ?s"
    by (simp add: done_property_def start_simps fresh_source_fields)
  show ?thesis
    using deliver_flow_error[OF r l] r n by (simp add: done_property_def)
qed

text \<open>
  Claim C3, amended. When \<open>width * 3\<close> exceeds the row stride, or the buffer is shorter than
  \<open>stride * height\<close>, the callback returns \<open>Gst.FlowReturn.ERROR\<close>, builds no frame, and
  itself leaves the queue, the done flag and the pipeline state as they were; on a mapped buffer
  it prints one line. It raises nothing. The sample is not skipped: while the main loop runs, the
  flow error comes back as a bus error, after which the done flag is set, the pipeline is in
  NULL, and the queue still holds what it held.
\<close>

theorem bad_layout_rejected:
  assumes "get_row_stride smp = Inr st"
    and "st < width smp * 3 \<or> length (payload smp) < st * height smp"
  shows "fst (on_new_sample smp s) = Returns FLOW_ERROR
         \<and> queue (snd (on_new_sample smp s)) = queue s
         \<and> done_flag (snd (on_new_sample smp s)) = done_flag s
         \<and> pipeline_state (snd (on_new_sample smp s)) = pipeline_state s
         \<and> produced (NewSample smp) = []
         \<and> (mappable smp \<longrightarrow> (\<exists>l. printed (snd (on_new_sample smp s)) = printed s @ [l]))
         \<and> (loop_running s \<longrightarrow>
              done_flag (deliver smp s) \<and> pipeline_state (deliver smp s) = NULL
              \<and> queue (deliver smp s) = queue s)"
proof -
  have cb: "fst (on_new_sample smp s) = Returns FLOW_ERROR
         \<and> queue (snd (on_new_sample smp s)) = queue s
         \<and> done_flag (snd (on_new_sample smp s)) = done_flag s
         \<and> pipeline_state (snd (on_new_sample smp s)) = pipeline_state s
         \<and> produced (NewSample smp) = []
         \<and> (mappable smp \<longrightarrow> (\<exists>l. printed (snd (on_new_sample smp s)) = printed s @ [l]))"
  proof (cases "mappable smp")
    case False
    then have "build_frame smp = Inl MapFailed"
      using assms(1) by (simp add: build_frame_def)
    then show ?thesis using False by (simp add: on_new_sample_def produced_def)
  next
    case True
    then have bf: "build_frame smp = unpack (width smp) (height smp) st (payload smp)"
      using assms(1) by (simp add: build_frame_def)
    have "\<exists>l. build_frame smp = Inl (Rejected l)"
    proof (cases "length (payload smp) < st * height smp")
      case True
      then show ?thesis unfolding bf unpack_closed_form by simp
    next
      case False
      then have "st < width smp * 3" using assms(2) by simp
      then show ?thesis unfolding bf unpack_closed_form using False by simp
    qed
    then obtain l where "build_frame smp = Inl (Rejected l)" by blast
    then show ?thesis by (simp add: on_new_sample_def produced_def)
  qed
  have "done_flag (deliver smp s) \<and> pipeline_state (deliver smp s) = NULL
        \<and> queue (deliver smp s) = queue s" if "loop_running s"
    using deliver_flow_error[of smp s] cb that by simp
  then show ?thesis using cb by blast
qed

theorem bad_layout_rejected_witness:
  "fst (on_new_sample wide_sample (snd (start (init ''video.mp4'' 4 2 10)))) = Returns FLOW_ERROR
   \<and> items (queue (snd (on_new_sample wide_sample (snd (start (init ''video.mp4'' 4 2 10)))))) = []
   \<and> loop_running (snd (start (init ''video.mp4'' 4 2 10)))
   \<and> done_flag (deliver wide_sample (snd (start (init ''video.mp4'' 4 2 10))))
   \<and> items (queue (deliver wide_sample (snd (start (init ''video.mp4'' 4 2 10))))) = []"
proof -
  let ?s = "snd (start (init ''video.mp4'' 4 2 10))"
  have a: "get_row_stride wide_sample = Inr 8"
    by (simp add: get_row_stride_def wide_sample_def)
  have b: "8 < width wide_sample * 3 \<or> length (payload wide_sample) < 8 * height wide_sample"
    by (simp add: wide_sample_def)
  have l: "loop_running ?s"
    by (simp add: start_def init_def Let_def)
  have q: "items (queue ?s) = []"
    by (simp add: start_simps init_def Queue_def)
  show ?thesis
    using bad_layout_rejected[OF a b, of ?s] l q by simp
qed

end
